theory Spec2Isabelle
  imports Main "HOL-Library.Word" "HOL-Library.Monad_Syntax"
begin

unbundle bit_operations_syntax

section \<open>Data model\<close>

text \<open>
  The driver is written for Arduino: \<open>byte\<close> is an unsigned 8-bit integer,
  \<open>word\<close> an unsigned 16-bit integer and \<open>u32\<close> an unsigned 32-bit integer.
  Values of type \<open>int\<close> (lengths, loop counters, indices; 16 bits wide on AVR
  boards, 32 bits on others) are modelled as HOL integers. The modelled
  functions compute with them only by adding or subtracting a constant of at
  most 4 and by counting a loop up or down to a bound, so the model is exact
  unless an argument lies within 4 of the largest or smallest \<open>int\<close>. Where
  an \<open>int\<close> is converted to a \<open>byte\<close> the truncation is written out with
  \<open>word_of_int\<close>.

  A C++ array is a list of bytes. A function that would read or write an array
  outside its bounds, or that would hand back the result of a value-returning
  function that executed a bare \<open>return;\<close>, has undefined behaviour; the
  model returns \<open>None\<close> there, and \<open>Some\<close> result otherwise.

  Output on the serial console is not part of the model, with one exception:
  the error line of \<open>composeWord\<close>, which is the only observable difference
  between its error branch and a composed value of 0.
\<close>

type_synonym byte = "8 word"
type_synonym word16 = "16 word"
type_synonym u32 = "32 word"

subsection \<open>Constants of \<open>globals.h\<close> and \<open>data_flash_access.h\<close>\<close>

definition REQUEST_MAX_SIZE :: int where "REQUEST_MAX_SIZE = 32"
definition PAYLOAD_MAX_SIZE :: int where "PAYLOAD_MAX_SIZE = REQUEST_MAX_SIZE"
definition ADDR_SIZE :: int where "ADDR_SIZE = 2"
definition CHECKSUM_SIZE :: int where "CHECKSUM_SIZE = 1"
definition LENGTH_SIZE :: int where "LENGTH_SIZE = 1"
definition CHECKSUM_AND_LENGTH_SIZE :: int where
  "CHECKSUM_AND_LENGTH_SIZE = CHECKSUM_SIZE + LENGTH_SIZE"
definition SERVICE_SIZE :: int where
  "SERVICE_SIZE = ADDR_SIZE + CHECKSUM_SIZE + LENGTH_SIZE"
definition DATA_INDEX :: int where "DATA_INDEX = 2"
definition CHECKSUM_INDEX :: int where "CHECKSUM_INDEX = 34"
definition LENGTH_INDEX :: int where "LENGTH_INDEX = 35"
definition RESPONSE_MAX_SIZE :: int where "RESPONSE_MAX_SIZE = 36"

definition ALT_MANUFACTURER_ACCESS :: byte where "ALT_MANUFACTURER_ACCESS = 0x3E"
definition MAC_DATA_CHECKSUM :: byte where "MAC_DATA_CHECKSUM = 0x60"
definition OPERATION_STATUS :: word16 where "OPERATION_STATUS = 0x0054"
definition SEC0_n :: nat where "SEC0_n = 8"
definition SEALED :: byte where "SEALED = 3"
definition DF_ADDR_MIN :: word16 where "DF_ADDR_MIN = 0x4000"
definition DF_ADDR_MAX :: word16 where "DF_ADDR_MAX = 0x5FFF"


subsection \<open>Array access\<close>

text \<open>\<open>buf[i]\<close> as an rvalue, for an \<open>int\<close> index.\<close>

definition rd :: "byte list \<Rightarrow> int \<Rightarrow> byte option" where
  "rd buf i = (if 0 \<le> i \<and> i < int (length buf) then Some (buf ! nat i) else None)"

text \<open>\<open>buf[i] = v\<close>.\<close>

definition wr :: "byte list \<Rightarrow> int \<Rightarrow> byte \<Rightarrow> byte list option" where
  "wr buf i v = (if 0 \<le> i \<and> i < int (length buf) then Some (buf[nat i := v]) else None)"

section \<open>FrameValidator (\<open>utils.cpp\<close>)\<close>

text \<open>
  The statement \<open>for (int i = 0; i < n; i++) sum += data[i];\<close>, which is the
  loop of both \<open>checksum\<close> (with \<open>n = len\<close>) and \<open>validate\<close>
  (with \<open>n = len - 2\<close>). The running sum \<open>s\<close> is a \<open>byte\<close>, so the
  addition wraps.
\<close>

function sum_loop :: "byte list \<Rightarrow> int \<Rightarrow> int \<Rightarrow> byte \<Rightarrow> byte option" where
  "sum_loop data n i s =
     (if i < n
      then (case rd data i of
              None \<Rightarrow> None
            | Some b \<Rightarrow> sum_loop data n (i + 1) (s + b))
      else Some s)"
  by pat_completeness auto
termination
  by (relation "measure (\<lambda>(data, n, i, s). nat (n - i))") auto

declare sum_loop.simps [simp del]

text \<open>\<open>byte checksum(byte *data, byte len)\<close>: \<open>sum = 0\<close>, the loop, \<open>return ~sum\<close>.\<close>

definition checksum :: "byte list \<Rightarrow> byte \<Rightarrow> byte option" where
  "checksum data len = map_option (\<lambda>s. NOT s) (sum_loop data (uint len) 0 0)"

text \<open>
  \<open>bool validate(byte *data)\<close>. \<open>len\<close> is a \<open>byte\<close>; in \<open>len - 2\<close> it is
  promoted to \<open>int\<close>, so the bound is negative (and the loop empty) for
  \<open>len < 2\<close>.
\<close>

definition validate :: "byte list \<Rightarrow> bool option" where
  "validate data = do {
     sum0 \<leftarrow> rd data CHECKSUM_INDEX;
     len \<leftarrow> rd data LENGTH_INDEX;
     s \<leftarrow> sum_loop data (uint len - 2) 0 sum0;
     Some (s AND 0xFF \<noteq> 0)
   }"

section \<open>ByteCodec (\<open>utils.cpp\<close>)\<close>

text \<open>
  \<open>word composeWord(byte *buf, int lsbIndex, bool littleEndian)\<close>. The result
  pairs the lines printed on the serial console with the returned word: the
  error branch prints one line and returns 0 without touching \<open>buf\<close>.
  \<open>(buf[msbIndex] << 8) | buf[lsbIndex]\<close> is computed in \<open>int\<close> and converted
  to the 16-bit \<open>word\<close>.
\<close>

definition composeWord :: "byte list \<Rightarrow> int \<Rightarrow> bool \<Rightarrow> (string list \<times> word16) option" where
  "composeWord buf lsbIndex littleEndian =
     (let msbIndex = lsbIndex + (if littleEndian then 1 else - 1) in
      if msbIndex < 0
      then Some ([''~ Error: Incorrect pair of index and endian.''], 0)
      else do {
        msb \<leftarrow> rd buf msbIndex;
        lsb \<leftarrow> rd buf lsbIndex;
        Some ([], push_bit 8 (ucast msb) OR ucast lsb)
      })"

text \<open>
  The loop of \<open>composeValue\<close>:
  \<open>for (int i = till; i >= from; i--) { retval = retval << 8; retval |= buf[i]; }\<close>
  on the 32-bit accumulator \<open>retval\<close>.
\<close>

function composeValue_loop :: "byte list \<Rightarrow> int \<Rightarrow> int \<Rightarrow> u32 \<Rightarrow> u32 option" where
  "composeValue_loop buf from' i retval =
     (if i \<ge> from'
      then (case rd buf i of
              None \<Rightarrow> None
            | Some b \<Rightarrow> composeValue_loop buf from' (i - 1) (push_bit 8 retval OR ucast b))
      else Some retval)"
  by pat_completeness auto
termination
  by (relation "measure (\<lambda>(buf, from', i, retval). nat (i - from' + 1))") auto

declare composeValue_loop.simps [simp del]

text \<open>
  \<open>u32 composeValue(byte *buf, int from, int till)\<close>. For \<open>till <= from\<close> the
  function prints an error and executes \<open>return;\<close>, so no value is returned.
\<close>

definition composeValue :: "byte list \<Rightarrow> int \<Rightarrow> int \<Rightarrow> u32 option" where
  "composeValue buf from' till =
     (if till \<le> from' then None else composeValue_loop buf from' till 0)"

definition composeDoubleWord :: "byte list \<Rightarrow> u32 option" where
  "composeDoubleWord buf = composeValue buf 0 3"

text \<open>
  The little-endian value of a byte sequence, first byte least significant.
  This is the specification's reading of a byte range, against which
  \<open>composeValue\<close> is compared.
\<close>

fun le_value :: "byte list \<Rightarrow> nat" where
  "le_value [] = 0"
| "le_value (b # bs) = unat b + 256 * le_value bs"

section \<open>AddressGate (\<open>utils.cpp\<close>, \<open>data_flash_access.cpp\<close>)\<close>

text \<open>
  The source names \<open>_isRequestMinAllowed\<close>, \<open>_isAllowedRequestSize\<close>,
  \<open>_isAddrValid\<close> and \<open>_isDeviceSealed\<close> lose their leading underscore.
\<close>

definition isRequestMinAllowed :: "int \<Rightarrow> bool" where
  "isRequestMinAllowed len = (len > 0)"

definition isAllowedRequestSize :: "int \<Rightarrow> bool" where
  "isAllowedRequestSize len =
     (if \<not> isRequestMinAllowed len then False else len \<le> REQUEST_MAX_SIZE)"

definition isAllowedRequestPayloadSize :: "int \<Rightarrow> bool" where
  "isAllowedRequestPayloadSize len =
     (if \<not> isRequestMinAllowed len then False else len \<le> PAYLOAD_MAX_SIZE)"

definition isAddrValid :: "word16 \<Rightarrow> bool" where
  "isAddrValid addr = (DF_ADDR_MIN \<le> addr \<and> addr \<le> DF_ADDR_MAX)"

section \<open>The two-wire bus\<close>

text \<open>
  The bus is the external collaborator of the driver (the Arduino \<open>Wire\<close>
  object). Its state is the trace of what the driver did on it, in order, and
  the answers the device will give: the head of \<open>device\<close> is what the device
  sends on the next \<open>Wire.requestFrom\<close>. A \<open>Write reg payload\<close> is one
  transmission (\<open>beginTransmission\<close> to \<open>endTransmission\<close>): the register
  byte followed by the payload. \<open>delay(ms)\<close> is recorded in the same trace.
  The status returned by \<open>endTransmission\<close> is ignored by every caller that
  is modelled here and is left out.
\<close>

datatype event = Write byte "byte list" | Request int | Delay nat

record bus =
  trace :: "event list"
  device :: "byte list list"

definition emit :: "event \<Rightarrow> bus \<Rightarrow> bus" where
  "emit e b = b\<lparr>trace := trace b @ [e]\<rparr>"

fun writes :: "event list \<Rightarrow> (byte \<times> byte list) list" where
  "writes [] = []"
| "writes (Write reg payload # es) = (reg, payload) # writes es"
| "writes (e # es) = writes es"

definition delay :: "nat \<Rightarrow> bus \<Rightarrow> bus" where
  "delay ms b = emit (Delay ms) b"

text \<open>\<open>int sendCommand(byte command)\<close>: the register byte alone.\<close>

definition sendCommand :: "byte \<Rightarrow> bus \<Rightarrow> bus" where
  "sendCommand command b = emit (Write command []) b"

text \<open>\<open>int sendCommand(byte reg, word command)\<close>: the word in little endian.\<close>

definition sendCommand_word :: "byte \<Rightarrow> word16 \<Rightarrow> bus \<Rightarrow> bus" where
  "sendCommand_word reg command b =
     (let buf = [ucast (command AND 0xFF), ucast (drop_bit 8 command AND 0xFF)]
      in emit (Write reg buf) b)"

text \<open>\<open>int sendData(byte reg, byte *data, int len)\<close>: the first \<open>len\<close> bytes of \<open>data\<close>.\<close>

definition sendData :: "byte \<Rightarrow> byte list \<Rightarrow> int \<Rightarrow> bus \<Rightarrow> bus option" where
  "sendData reg data len b =
     (if 0 \<le> len \<and> len \<le> int (length data)
      then Some (emit (Write reg (take (nat len) data)) b)
      else None)"

text \<open>
  \<open>Wire.requestFrom(DEVICE_ADDR, quantity)\<close>: the bytes that are then available
  for reading, at most \<open>quantity\<close> of them.
\<close>

definition requestFrom :: "int \<Rightarrow> bus \<Rightarrow> byte list \<times> bus" where
  "requestFrom quantity b =
     (case device b of
        [] \<Rightarrow> ([], emit (Request quantity) b)
      | r # rs \<Rightarrow> (take (nat quantity) r, emit (Request quantity) (b\<lparr>device := rs\<rparr>)))"

text \<open>
  The loop of \<open>requestBytes\<close>:
  \<open>while (Wire.available() && actual < len) buf[actual++] = Wire.read();\<close>
  where \<open>rx\<close> are the bytes still available and \<open>buf\<close> of the source is the
  array of the model at offset \<open>off\<close> (\<open>requestBlock\<close> passes \<open>buf + off\<close>).
\<close>

fun requestBytes_loop ::
  "byte list \<Rightarrow> int \<Rightarrow> int \<Rightarrow> byte list \<Rightarrow> int \<Rightarrow> (int \<times> byte list) option" where
  "requestBytes_loop buf off len [] actual = Some (actual, buf)"
| "requestBytes_loop buf off len (v # rx) actual =
     (if actual < len
      then (case wr buf (off + actual) v of
              None \<Rightarrow> None
            | Some buf' \<Rightarrow> requestBytes_loop buf' off len rx (actual + 1))
      else Some (actual, buf))"

text \<open>
  \<open>int requestBytes(byte *buf, int len)\<close>. A size that is not allowed makes the
  function execute \<open>return;\<close> without a value.
\<close>

definition requestBytes ::
  "byte list \<Rightarrow> int \<Rightarrow> int \<Rightarrow> bus \<Rightarrow> (int \<times> byte list \<times> bus) option" where
  "requestBytes buf off len b =
     (if \<not> isAllowedRequestSize len then None
      else (case requestFrom len b of
              (rx, b') \<Rightarrow>
                map_option (\<lambda>(actual, buf'). (actual, buf', b'))
                  (requestBytes_loop buf off len rx 0)))"

text \<open>\<open>int requestBlock(byte *buf)\<close>: three requests of 2, 32 and 2 bytes.\<close>

definition requestBlock :: "byte list \<Rightarrow> bus \<Rightarrow> (int \<times> byte list \<times> bus) option" where
  "requestBlock buf b = do {
     (a1, buf, b) \<leftarrow> requestBytes buf 0 ADDR_SIZE b;
     (a2, buf, b) \<leftarrow> requestBytes buf ADDR_SIZE PAYLOAD_MAX_SIZE b;
     (a3, buf, b) \<leftarrow> requestBytes buf (ADDR_SIZE + PAYLOAD_MAX_SIZE) CHECKSUM_AND_LENGTH_SIZE b;
     Some (a1 + a2 + a3, buf, b)
   }"

section \<open>BlockTransport (\<open>alt_manufacturer_access.cpp\<close>, \<open>data_flash_access.cpp\<close>)\<close>

text \<open>
  The statement \<open>for (int i = 0; i < n; i++) dst[doff + i] = src[soff + i];\<close>.
  It is the copy loop of \<open>AltManufacturerAccess\<close>
  (\<open>retval[i] = buf[DATA_INDEX + i]\<close>) and of \<open>dfWriteBytes\<close>
  (\<open>buf[ADDR_SIZE + i] = data[i]\<close>).
\<close>

function copy_loop ::
  "byte list \<Rightarrow> int \<Rightarrow> byte list \<Rightarrow> int \<Rightarrow> int \<Rightarrow> int \<Rightarrow> byte list option" where
  "copy_loop dst doff src soff n i =
     (if i < n
      then (case rd src (soff + i) of
              None \<Rightarrow> None
            | Some v \<Rightarrow>
                (case wr dst (doff + i) v of
                   None \<Rightarrow> None
                 | Some dst' \<Rightarrow> copy_loop dst' doff src soff n (i + 1)))
      else Some dst)"
  by pat_completeness auto
termination
  by (relation "measure (\<lambda>(dst, doff, src, soff, n, i). nat (n - i))") auto

declare copy_loop.simps [simp del]

text \<open>
  The first half of \<open>AltManufacturerAccess(MACSubcmd, retval, len)\<close>: the
  zeroed 36-byte \<open>buf\<close>, the subcommand, the 5 ms delay, the bare register
  write and the block read. It returns the frame received in \<open>buf\<close>.
\<close>

definition receiveBlock :: "word16 \<Rightarrow> bus \<Rightarrow> (byte list \<times> bus) option" where
  "receiveBlock MACSubcmd b = do {
     let buf = replicate (nat RESPONSE_MAX_SIZE) 0;
     let b = sendCommand_word ALT_MANUFACTURER_ACCESS MACSubcmd b;
     let b = delay 5 b;
     let b = sendCommand ALT_MANUFACTURER_ACCESS b;
     (count, buf, b) \<leftarrow> requestBlock buf b;
     Some (buf, b)
   }"

text \<open>
  \<open>bool AltManufacturerAccess(const word MACSubcmd, byte *retval, byte *len)\<close>.
  The arguments \<open>retval\<close> and \<open>len\<close> are the caller's output buffer and output
  length before the call; the result holds the returned flag, both outputs
  after the call, and the bus. \<open>_len\<close> of the source is an \<open>int\<close>; the
  assignment \<open>*len = _len\<close> truncates it to a byte.
\<close>

definition AltManufacturerAccess ::
  "word16 \<Rightarrow> byte list \<Rightarrow> byte \<Rightarrow> bus \<Rightarrow> (bool \<times> byte list \<times> byte \<times> bus) option" where
  "AltManufacturerAccess MACSubcmd retval len b = do {
     (buf, b) \<leftarrow> receiveBlock MACSubcmd b;
     isDataValid \<leftarrow> validate buf;
     if isDataValid then do {
       l \<leftarrow> rd buf LENGTH_INDEX;
       let len' = uint l - SERVICE_SIZE;
       retval \<leftarrow> copy_loop retval 0 buf DATA_INDEX len' 0;
       Some (True, retval, word_of_int len', b)
     } else Some (False, retval, len, b)
   }"

text \<open>
  \<open>u32 OperationStatus()\<close>. When the block read fails the function executes
  \<open>return;\<close> without a value.
\<close>

definition OperationStatus :: "bus \<Rightarrow> (u32 \<times> bus) option" where
  "OperationStatus b = do {
     (ok, buf, len, b) \<leftarrow>
        AltManufacturerAccess OPERATION_STATUS (replicate (nat RESPONSE_MAX_SIZE) 0) 0 b;
     if \<not> ok then None
     else do {
       operationStatus \<leftarrow> composeDoubleWord buf;
       Some (operationStatus, b)
     }
   }"

text \<open>\<open>int securityMode()\<close>: bits 9 and 8 of the operation status.\<close>

definition securityMode :: "bus \<Rightarrow> (int \<times> bus) option" where
  "securityMode b = do {
     (operationStatus, b) \<leftarrow> OperationStatus b;
     let retval = (ucast (drop_bit SEC0_n operationStatus AND 3) :: byte);
     Some (uint retval, b)
   }"

definition isDeviceSealed :: "bus \<Rightarrow> (bool \<times> bus) option" where
  "isDeviceSealed b = do {
     (mode, b) \<leftarrow> securityMode b;
     Some (uint SEALED = mode, b)
   }"

text \<open>
  \<open>void dfWriteBytes(word addr, byte *data, int len)\<close>. The three gates are
  joined by \<open>||\<close>, so the seal check (which talks to the device) runs only
  after the address and the length have passed. The variable-length array
  \<open>buf\<close> has \<open>ADDR_SIZE + len\<close> bytes, all of which are assigned before use.
\<close>

definition dfWriteBytes :: "word16 \<Rightarrow> byte list \<Rightarrow> int \<Rightarrow> bus \<Rightarrow> bus option" where
  "dfWriteBytes addr data len b =
     (if \<not> isAddrValid addr \<or> \<not> isAllowedRequestPayloadSize len then Some b
      else do {
        (sealed, b) \<leftarrow> isDeviceSealed b;
        if sealed then Some b
        else do {
          let buf = replicate (nat (ADDR_SIZE + len)) 0;
          buf \<leftarrow> wr buf 0 (ucast (addr AND 0xFF));
          buf \<leftarrow> wr buf 1 (ucast (drop_bit 8 addr AND 0xFF));
          buf \<leftarrow> copy_loop buf ADDR_SIZE data 0 len 0;
          b \<leftarrow> sendData ALT_MANUFACTURER_ACCESS buf (ADDR_SIZE + len) b;
          checksum' \<leftarrow> checksum buf (word_of_int (ADDR_SIZE + len));
          let length' = (word_of_int (len + SERVICE_SIZE) :: byte);
          b \<leftarrow> sendData MAC_DATA_CHECKSUM [checksum', length'] 2 b;
          Some (delay 200 b)
        }
      })"

section \<open>Traces and scenarios\<close>

text \<open>
  The events of one block read of \<open>AltManufacturerAccess\<close>: the subcommand
  written to register \<open>0x3E\<close> in little endian, the 5 ms delay, the bare
  register write, and the three read requests of \<open>requestBlock\<close>.
\<close>

definition blockReadTrace :: "word16 \<Rightarrow> event list" where
  "blockReadTrace MACSubcmd =
     [Write 0x3E [ucast (MACSubcmd AND 0xFF), ucast (drop_bit 8 MACSubcmd AND 0xFF)],
      Delay 5, Write 0x3E [], Request 2, Request 32, Request 2]"

text \<open>
  The device-type scenario of the specification: the device answers the
  subcommand \<open>0x0001\<close> with the frame
  \<open>[0x01, 0x00, 0x10, 0x26, 0, ..., 0, checksum, 6]\<close>, where the checksum is
  \<open>~(0x01 + 0x00 + 0x10 + 0x26) = 0xC8\<close>.
\<close>

definition deviceTypeFrame :: "byte list" where
  "deviceTypeFrame =
     [0x01, 0x00, 0x10, 0x26, 0, 0, 0, 0, 0, 0, 0, 0, 0, 0, 0, 0, 0, 0,
      0, 0, 0, 0, 0, 0, 0, 0, 0, 0, 0, 0, 0, 0, 0, 0, 0xC8, 0x06]"

definition deviceTypeBus :: bus where
  "deviceTypeBus = \<lparr>trace = [], device =
     [[0x01, 0x00],
      [0x10, 0x26, 0, 0, 0, 0, 0, 0, 0, 0, 0, 0, 0, 0, 0, 0,
       0, 0, 0, 0, 0, 0, 0, 0, 0, 0, 0, 0, 0, 0, 0, 0],
      [0xC8, 0x06]]\<rparr>"

text \<open>
  A device that answers with the same address and payload, but with a length
  byte of 3 (less than the four service bytes) and a checksum byte of 1.
\<close>

definition shortLengthFrame :: "byte list" where
  "shortLengthFrame =
     [0x01, 0x00, 0x10, 0x26, 0, 0, 0, 0, 0, 0, 0, 0, 0, 0, 0, 0, 0, 0,
      0, 0, 0, 0, 0, 0, 0, 0, 0, 0, 0, 0, 0, 0, 0, 0, 0x01, 0x03]"

definition shortLengthBus :: bus where
  "shortLengthBus = \<lparr>trace = [], device =
     [[0x01, 0x00],
      [0x10, 0x26, 0, 0, 0, 0, 0, 0, 0, 0, 0, 0, 0, 0, 0, 0,
       0, 0, 0, 0, 0, 0, 0, 0, 0, 0, 0, 0, 0, 0, 0, 0],
      [0x01, 0x03]]\<rparr>"

text \<open>
  A device that answers with the same address and payload, but with a length
  byte of 39 (one more than the largest for which the summed range
  \<open>frame[0 .. len-2)\<close> lies inside the 36-byte frame) and a checksum byte of 1.
\<close>

definition overlongBus :: bus where
  "overlongBus = \<lparr>trace = [], device =
     [[0x01, 0x00],
      [0x10, 0x26, 0, 0, 0, 0, 0, 0, 0, 0, 0, 0, 0, 0, 0, 0,
       0, 0, 0, 0, 0, 0, 0, 0, 0, 0, 0, 0, 0, 0, 0, 0],
      [0x01, 0x27]]\<rparr>"

text \<open>A 36-byte frame of zeros whose length byte is 255.\<close>

definition longLengthFrame :: "byte list" where
  "longLengthFrame =
     [0, 0, 0, 0, 0, 0, 0, 0, 0, 0, 0, 0, 0, 0, 0, 0, 0, 0,
      0, 0, 0, 0, 0, 0, 0, 0, 0, 0, 0, 0, 0, 0, 0, 0, 0, 0xFF]"

text \<open>
  A device in FULL ACCESS mode: it answers the \<open>OperationStatus\<close> subcommand
  \<open>0x0054\<close> with the four payload bytes \<open>00 01 00 00\<close> (bits 9 and 8 are
  \<open>0, 1\<close>), total length 8 and checksum \<open>~(0x54 + 0x01) = 0xAA\<close>.
\<close>

definition unsealedBus :: bus where
  "unsealedBus = \<lparr>trace = [], device =
     [[0x54, 0x00],
      [0x00, 0x01, 0, 0, 0, 0, 0, 0, 0, 0, 0, 0, 0, 0, 0, 0,
       0, 0, 0, 0, 0, 0, 0, 0, 0, 0, 0, 0, 0, 0, 0, 0],
      [0xAA, 0x08]]\<rparr>"

section \<open>Unfolding the constants\<close>

lemmas BlockProtocol_defs =
  REQUEST_MAX_SIZE_def PAYLOAD_MAX_SIZE_def ADDR_SIZE_def CHECKSUM_SIZE_def
  LENGTH_SIZE_def CHECKSUM_AND_LENGTH_SIZE_def SERVICE_SIZE_def DATA_INDEX_def
  CHECKSUM_INDEX_def LENGTH_INDEX_def RESPONSE_MAX_SIZE_def

section \<open>Properties of the checksum\<close>

lemma sum_loop_done: "n \<le> i \<Longrightarrow> sum_loop data n i s = Some s"
  by (simp add: sum_loop.simps)

lemma sum_loop_in_bounds:
  "0 \<le> i \<Longrightarrow> n \<le> int (length data) \<Longrightarrow>
   sum_loop data n i s = Some (s + sum_list (drop (nat i) (take (nat n) data)))"
proof (induction data n i s rule: sum_loop.induct)
  case (1 data n i s)
  show ?case
  proof (cases "i < n")
    case False
    then show ?thesis by (simp add: sum_loop_done)
  next
    case True
    with "1.prems" have inb: "rd data i = Some (data ! nat i)"
      by (simp add: rd_def)
    from True "1.prems" have lt: "nat i < length (take (nat n) data)"
      by simp
    have step: "drop (nat i) (take (nat n) data) =
                data ! nat i # drop (nat (i + 1)) (take (nat n) data)"
    proof -
      have "nat (i + 1) = Suc (nat i)"
        using "1.prems"(1) by simp
      moreover have "take (nat n) data ! nat i = data ! nat i"
        using True "1.prems"(1) by simp
      ultimately show ?thesis
        using Cons_nth_drop_Suc [OF lt] by simp
    qed
    have "sum_loop data n i s = sum_loop data n (i + 1) (s + data ! nat i)"
      using True inb by (subst sum_loop.simps) simp
    also have "\<dots> = Some (s + data ! nat i + sum_list (drop (nat (i + 1)) (take (nat n) data)))"
      using "1.IH" [OF True inb] "1.prems" by simp
    finally show ?thesis by (simp add: step add.assoc)
  qed
qed

lemma of_nat_sum_list_unat: "(of_nat (sum_list (map unat xs)) :: byte) = sum_list xs"
  by (induction xs) simp_all

lemma unat_NOT_byte: "unat (NOT (w :: byte)) = 255 - unat w"
proof -
  have "NOT w = - 1 - w"
    by (simp add: not_eq_complement)
  moreover have "unat (- 1 - w) = unat (- 1 :: byte) - unat w"
    by (rule unat_sub) simp
  moreover have "unat (- 1 :: byte) = 255"
    by (simp add: unsigned_minus_1_eq_mask mask_eq_exp_minus_1)
  ultimately show ?thesis
    by simp
qed

lemma nat_and_255: "(n :: nat) AND 0xFF = n mod 256"
proof -
  have m: "(0xFF :: nat) = mask 8"
    by (simp add: mask_eq_exp_minus_1)
  have "n AND mask 8 = take_bit 8 n"
    by (simp only: take_bit_eq_mask)
  also have "\<dots> = n mod 256"
    by (simp add: take_bit_eq_mod)
  finally show ?thesis
    by (simp only: m)
qed

lemma complement_sum: "((S::nat) + (255 - S mod 256)) mod 256 = 255"
proof -
  define q r where "q = S div 256" and "r = S mod 256"
  have r: "r < 256"
    by (simp add: r_def)
  have S: "S = r + q * 256"
    by (simp add: q_def r_def)
  have "S + (255 - r) = 255 + q * 256"
    using r by (subst S) simp
  then have "(S + (255 - r)) mod 256 = (255 + q * 256) mod 256"
    by (rule arg_cong)
  also have "\<dots> = 255"
    by (simp only: mod_mult_self1) simp
  finally show ?thesis
    by (simp only: r_def)
qed

section \<open>Properties of the loops\<close>

lemma byte_and_0xFF: "(s :: byte) AND 0xFF = s"
proof -
  have "(0xFF :: byte) = - 1" by simp
  then show ?thesis by (simp only: word_bw_comms word_bitwise_m1_simps)
qed

lemma sum_loop_from_0:
  assumes "n \<le> int (length data)"
  shows "sum_loop data n 0 s = Some (s + sum_list (take (nat n) data))"
  using sum_loop_in_bounds [of 0 n data s] assms by simp

lemma validate_in_bounds:
  assumes "length frame = 36" and "unat (frame ! 35) \<le> 38"
  shows "validate frame = Some (frame ! 34 + sum_list (take (unat (frame ! 35) - 2) frame) \<noteq> 0)"
proof -
  have r34: "rd frame CHECKSUM_INDEX = Some (frame ! 34)"
    and r35: "rd frame LENGTH_INDEX = Some (frame ! 35)"
    using assms(1) by (simp_all add: rd_def CHECKSUM_INDEX_def LENGTH_INDEX_def)
  have "uint (frame ! 35) \<le> 38"
    using assms(2) by (metis uint_nat of_nat_mono of_nat_numeral)
  then have "uint (frame ! 35) - 2 \<le> int (length frame)"
    using assms(1) by simp
  moreover have "nat (uint (frame ! 35) - 2) = unat (frame ! 35) - 2"
    by (simp add: nat_diff_distrib')
  ultimately have "sum_loop frame (uint (frame ! 35) - 2) 0 (frame ! 34) =
      Some (frame ! 34 + sum_list (take (unat (frame ! 35) - 2) frame))"
    using sum_loop_from_0 [of "uint (frame ! 35) - 2" frame "frame ! 34"] by simp
  then show ?thesis
    by (simp add: validate_def r34 r35 byte_and_0xFF)
qed

lemma sum_loop_Some_bound:
  "sum_loop data n i s = Some r \<Longrightarrow> i < n \<Longrightarrow> n \<le> int (length data)"
proof (induction data n i s rule: sum_loop.induct)
  case (1 data n i s)
  from "1.prems" obtain v where v: "rd data i = Some v"
    and rec: "sum_loop data n (i + 1) (s + v) = Some r"
    by (subst (asm) sum_loop.simps) (auto split: option.splits)
  from v have inb: "i < int (length data)"
    by (simp add: rd_def split: if_splits)
  show ?case
  proof (cases "i + 1 < n")
    case True
    then show ?thesis using "1.IH" [OF "1.prems"(2) v rec] by simp
  next
    case False
    with "1.prems"(2) inb show ?thesis by simp
  qed
qed

lemma validate_Some_length:
  assumes "validate frame = Some ok"
  shows "36 \<le> length frame \<and> uint (frame ! 35) - 2 \<le> int (length frame)"
proof -
  from assms obtain s0 l s where r34: "rd frame CHECKSUM_INDEX = Some s0"
    and r35: "rd frame LENGTH_INDEX = Some l"
    and loop: "sum_loop frame (uint l - 2) 0 s0 = Some s"
    by (auto simp: validate_def split: Option.bind_splits)
  from r35 have len: "36 \<le> length frame" and l: "l = frame ! 35"
    by (auto simp: rd_def LENGTH_INDEX_def split: if_splits)
  show ?thesis
  proof (cases "0 < uint l - 2")
    case True
    then show ?thesis using sum_loop_Some_bound [OF loop] len l by simp
  next
    case False
    then show ?thesis using len l by simp
  qed
qed

lemma copy_loop_spec:
  "0 \<le> i \<Longrightarrow> 0 \<le> doff \<Longrightarrow> 0 \<le> soff \<Longrightarrow>
   doff + n \<le> int (length dst) \<Longrightarrow> soff + n \<le> int (length src) \<Longrightarrow>
   \<exists>d. copy_loop dst doff src soff n i = Some d \<and> length d = length dst \<and>
       (\<forall>k < length dst. d ! k =
          (if nat (doff + i) \<le> k \<and> k < nat (doff + n) then src ! (k - nat doff + nat soff)
           else dst ! k))"
proof (induction dst doff src soff n i rule: copy_loop.induct)
  case (1 dst doff src soff n i)
  show ?case
  proof (cases "i < n")
    case False
    then show ?thesis by (subst copy_loop.simps) auto
  next
    case True
    with "1.prems" have r: "rd src (soff + i) = Some (src ! nat (soff + i))"
      by (simp add: rd_def)
    from True "1.prems" have w: "wr dst (doff + i) (src ! nat (soff + i)) =
        Some (dst[nat (doff + i) := src ! nat (soff + i)])"
      by (simp add: wr_def)
    let ?dst' = "dst[nat (doff + i) := src ! nat (soff + i)]"
    have unfold: "copy_loop dst doff src soff n i = copy_loop ?dst' doff src soff n (i + 1)"
      using True r w by (subst copy_loop.simps) simp
    from "1.IH" [OF True r w] "1.prems"
    obtain d where d: "copy_loop ?dst' doff src soff n (i + 1) = Some d"
      and ld: "length d = length dst"
      and nth: "\<forall>k < length dst. d ! k =
          (if nat (doff + (i + 1)) \<le> k \<and> k < nat (doff + n) then src ! (k - nat doff + nat soff)
           else ?dst' ! k)"
      by auto
    have "d ! k = (if nat (doff + i) \<le> k \<and> k < nat (doff + n) then src ! (k - nat doff + nat soff)
           else dst ! k)" if k: "k < length dst" for k
    proof (cases "k = nat (doff + i)")
      case True
      have "nat (soff + i) = nat (doff + i) - nat doff + nat soff"
        using "1.prems" by simp
      moreover have "nat (doff + i) < nat (doff + n)"
        using \<open>i < n\<close> "1.prems" by simp
      ultimately show ?thesis
        using nth k True "1.prems" by simp
    next
      case False
      then show ?thesis
        using nth k "1.prems" by (auto simp: nat_add_distrib)
    qed
    with d ld unfold show ?thesis by simp
  qed
qed

lemma push_or_byte: "push_bit 8 (r :: u32) OR ucast (v :: byte) = r * 256 + ucast v"
proof -
  have "push_bit 8 r AND (ucast v :: u32) = 0"
    by (rule bit_eqI) (auto simp: bit_simps dest: bit_imp_le_length)
  then have "push_bit 8 r + ucast v = push_bit 8 r OR (ucast v :: u32)"
    by (rule disjunctive_add_eq_or)
  then show ?thesis
    by (simp add: push_bit_eq_mult)
qed

lemma le_value_snoc: "le_value (bs @ [v]) = le_value bs + unat v * 256 ^ length bs"
  by (induction bs) (simp_all add: algebra_simps)

lemma le_value_bound: "le_value bs < 256 ^ length bs"
proof (induction bs)
  case Nil
  show ?case by simp
next
  case (Cons v bs)
  have "unat v < 256"
    using unsigned_less [of v, where 'a = nat] by simp
  then have "unat v + 256 * le_value bs < 256 + 256 * le_value bs"
    by simp
  also have "\<dots> = 256 * (le_value bs + 1)"
    by simp
  also have "\<dots> \<le> 256 * 256 ^ length bs"
    using Cons.IH by (intro mult_le_mono2) simp
  finally show ?case by simp
qed

lemma slice_snoc:
  assumes "0 \<le> f" and "f \<le> i" and "i < int (length buf)"
  shows "take (nat (i - f + 1)) (drop (nat f) buf) =
         take (nat (i - 1 - f + 1)) (drop (nat f) buf) @ [buf ! nat i]"
proof -
  have n: "nat (i - f + 1) = Suc (nat (i - f))" and m: "nat (i - 1 - f + 1) = nat (i - f)"
    using assms by simp_all
  have lt: "nat (i - f) < length (drop (nat f) buf)"
    using assms by simp
  have e: "nat f + nat (i - f) = nat i"
    using assms by linarith
  have "drop (nat f) buf ! nat (i - f) = buf ! (nat f + nat (i - f))"
    by (rule nth_drop) (use assms in simp)
  then have "drop (nat f) buf ! nat (i - f) = buf ! nat i"
    by (simp only: e)
  then show ?thesis
    by (simp only: n m take_Suc_conv_app_nth [OF lt])
qed

lemma composeValue_loop_spec:
  "0 \<le> f \<Longrightarrow> f - 1 \<le> i \<Longrightarrow> i < int (length buf) \<Longrightarrow>
   composeValue_loop buf f i r =
     Some (r * 256 ^ nat (i - f + 1)
           + of_nat (le_value (take (nat (i - f + 1)) (drop (nat f) buf))))"
proof (induction buf f i r rule: composeValue_loop.induct)
  case (1 buf f i r)
  show ?case
  proof (cases "f \<le> i")
    case False
    with "1.prems" have "i = f - 1" by simp
    then show ?thesis by (subst composeValue_loop.simps) simp
  next
    case True
    with "1.prems" have r: "rd buf i = Some (buf ! nat i)"
      by (simp add: rd_def)
    let ?v = "buf ! nat i"
    let ?lo = "take (nat (i - 1 - f + 1)) (drop (nat f) buf)"
    have len_lo: "length ?lo = nat (i - f)"
      using True "1.prems" by simp
    have cnt: "nat (i - f + 1) = Suc (nat (i - f))" and cnt': "nat (i - 1 - f + 1) = nat (i - f)"
      using True by simp_all
    have "composeValue_loop buf f i r =
          composeValue_loop buf f (i - 1) (push_bit 8 r OR ucast ?v)"
      using True r by (subst composeValue_loop.simps) simp
    also have "\<dots> = Some ((r * 256 + ucast ?v) * 256 ^ nat (i - f) + of_nat (le_value ?lo))"
      using "1.IH" [OF True r] "1.prems" True by (simp add: push_or_byte cnt')
    also have "(r * 256 + ucast ?v) * 256 ^ nat (i - f) + of_nat (le_value ?lo) =
               r * 256 ^ nat (i - f + 1) + of_nat (le_value (?lo @ [?v]))"
    proof -
      have "(of_nat (le_value (?lo @ [?v])) :: u32) =
            of_nat (le_value ?lo) + ucast ?v * 256 ^ nat (i - f)"
        by (simp only: le_value_snoc len_lo) simp
      then show ?thesis
        by (simp only: cnt) (simp add: algebra_simps)
    qed
    finally show ?thesis
      using slice_snoc [OF "1.prems"(1) True "1.prems"(3)] by simp
  qed
qed

lemma join_bytes: 
  "push_bit 8 (ucast (ucast (drop_bit 8 v) :: byte)) OR ucast (ucast (v AND 0xFF) :: byte) = (v :: word16)"
proof -
  have m: "(0xFF :: word16) = mask 8"
    by (simp add: mask_eq_exp_minus_1)
  show ?thesis
    unfolding m
    by (rule bit_eqI) (auto simp: bit_simps dest: bit_imp_le_length)
qed

section \<open>Properties of the bus exchange\<close>

lemma requestBytes_loop_length:
  "requestBytes_loop buf off len rx actual = Some (a, buf') \<Longrightarrow> length buf' = length buf"
proof (induction rx arbitrary: buf actual)
  case Nil
  then show ?case by simp
next
  case (Cons v rx)
  show ?case
  proof (cases "actual < len")
    case False
    with Cons.prems show ?thesis by simp
  next
    case True
    with Cons.prems obtain buf1 where w: "wr buf (off + actual) v = Some buf1"
      and rec: "requestBytes_loop buf1 off len rx (actual + 1) = Some (a, buf')"
      by (auto split: option.splits)
    from w have "length buf1 = length buf"
      by (auto simp: wr_def split: if_splits)
    with Cons.IH [OF rec] show ?thesis by simp
  qed
qed

lemma requestBytes_loop_total:
  "0 \<le> off \<Longrightarrow> 0 \<le> actual \<Longrightarrow> off + len \<le> int (length buf) \<Longrightarrow>
   \<exists>a buf'. requestBytes_loop buf off len rx actual = Some (a, buf')"
proof (induction rx arbitrary: buf actual)
  case Nil
  show ?case by simp
next
  case (Cons v rx)
  show ?case
  proof (cases "actual < len")
    case False
    then show ?thesis by simp
  next
    case True
    with Cons.prems have w: "wr buf (off + actual) v = Some (buf[nat (off + actual) := v])"
      by (simp add: wr_def)
    from Cons.IH [of "actual + 1" "buf[nat (off + actual) := v]"] Cons.prems
    obtain a buf' where
      "requestBytes_loop (buf[nat (off + actual) := v]) off len rx (actual + 1) = Some (a, buf')"
      by auto
    with True w show ?thesis by simp
  qed
qed

lemma requestBytes_Some:
  assumes "requestBytes buf off len b = Some (a, buf', b')"
  shows "trace b' = trace b @ [Request len] \<and> length buf' = length buf"
proof -
  obtain rx b1 where rf: "requestFrom len b = (rx, b1)"
    by (cases "requestFrom len b")
  then have tr: "trace b1 = trace b @ [Request len]"
    by (auto simp: requestFrom_def emit_def split: list.splits)
  from assms rf have "b' = b1" and "requestBytes_loop buf off len rx 0 = Some (a, buf')"
    by (auto simp: requestBytes_def split: if_splits)
  with tr requestBytes_loop_length show ?thesis
    by blast
qed

lemma requestBytes_total:
  assumes "0 < len" and "len \<le> 32" and "0 \<le> off" and "off + len \<le> int (length buf)"
  shows "\<exists>a buf' b'. requestBytes buf off len b = Some (a, buf', b')"
proof -
  obtain rx b1 where rf: "requestFrom len b = (rx, b1)"
    by (cases "requestFrom len b")
  from requestBytes_loop_total [of off 0 len buf rx] assms
  obtain a buf' where "requestBytes_loop buf off len rx 0 = Some (a, buf')"
    by auto
  with assms(1,2) rf show ?thesis
    by (simp add: requestBytes_def isAllowedRequestSize_def isRequestMinAllowed_def
        REQUEST_MAX_SIZE_def)
qed

lemma requestBlock_Some:
  assumes "requestBlock buf b = Some (count, buf', b')"
  shows "trace b' = trace b @ [Request 2, Request 32, Request 2] \<and> length buf' = length buf"
proof -
  from assms obtain a1 buf1 b1 a2 buf2 b2 a3 where
    r1: "requestBytes buf 0 2 b = Some (a1, buf1, b1)" and
    r2: "requestBytes buf1 2 32 b1 = Some (a2, buf2, b2)" and
    r3: "requestBytes buf2 34 2 b2 = Some (a3, buf', b')"
    by (auto simp: requestBlock_def BlockProtocol_defs split: Option.bind_splits)
  from requestBytes_Some [OF r1] requestBytes_Some [OF r2] requestBytes_Some [OF r3]
  show ?thesis by simp
qed

lemma requestBlock_total:
  assumes "length buf = 36"
  shows "\<exists>count buf' b'. requestBlock buf b = Some (count, buf', b')"
proof -
  from requestBytes_total [of 2 0 buf b] assms
  obtain a1 buf1 b1 where r1: "requestBytes buf 0 2 b = Some (a1, buf1, b1)"
    by auto
  from requestBytes_Some [OF r1] assms have l1: "length buf1 = 36"
    by simp
  from requestBytes_total [of 32 2 buf1 b1] l1
  obtain a2 buf2 b2 where r2: "requestBytes buf1 2 32 b1 = Some (a2, buf2, b2)"
    by auto
  from requestBytes_Some [OF r2] l1 have l2: "length buf2 = 36"
    by simp
  from requestBytes_total [of 2 34 buf2 b2] l2
  obtain a3 buf3 b3 where r3: "requestBytes buf2 34 2 b2 = Some (a3, buf3, b3)"
    by auto
  from r1 r2 r3 show ?thesis
    by (simp add: requestBlock_def BlockProtocol_defs)
qed

lemma receiveBlock_Some:
  assumes "receiveBlock MACSubcmd b = Some (frame, b')"
  shows "trace b' = trace b @ blockReadTrace MACSubcmd \<and> length frame = 36"
proof -
  let ?b = "sendCommand ALT_MANUFACTURER_ACCESS
              (delay 5 (sendCommand_word ALT_MANUFACTURER_ACCESS MACSubcmd b))"
  have tr: "trace ?b = trace b @ [Write 0x3E [ucast (MACSubcmd AND 0xFF),
      ucast (drop_bit 8 MACSubcmd AND 0xFF)], Delay 5, Write 0x3E []]"
    by (simp add: sendCommand_def delay_def sendCommand_word_def emit_def
        ALT_MANUFACTURER_ACCESS_def)
  from assms obtain count where
    "requestBlock (replicate 36 0) ?b = Some (count, frame, b')"
    by (auto simp: receiveBlock_def RESPONSE_MAX_SIZE_def split: Option.bind_splits)
  from requestBlock_Some [OF this] tr show ?thesis
    by (simp add: blockReadTrace_def)
qed

lemma receiveBlock_total:
  "\<exists>frame b'. receiveBlock MACSubcmd b = Some (frame, b')"
proof -
  let ?b = "sendCommand ALT_MANUFACTURER_ACCESS
              (delay 5 (sendCommand_word ALT_MANUFACTURER_ACCESS MACSubcmd b))"
  from requestBlock_total [of "replicate 36 0" ?b]
  obtain count frame b' where "requestBlock (replicate 36 0) ?b = Some (count, frame, b')"
    by auto
  then show ?thesis
    by (simp add: receiveBlock_def RESPONSE_MAX_SIZE_def)
qed

lemma AltManufacturerAccess_trace:
  assumes "AltManufacturerAccess MACSubcmd retval len b = Some (ok, retval', len', b')"
  shows "trace b' = trace b @ blockReadTrace MACSubcmd"
proof -
  from assms obtain frame b1 where rb: "receiveBlock MACSubcmd b = Some (frame, b1)"
    and "b' = b1"
    by (auto simp: AltManufacturerAccess_def split: Option.bind_splits if_splits)
  with receiveBlock_Some [OF rb] show ?thesis by simp
qed

lemma isDeviceSealed_trace:
  assumes "isDeviceSealed b = Some (sealed, b')"
  shows "trace b' = trace b @ blockReadTrace 0x0054"
proof -
  from assms obtain ok retval' len' where
    "AltManufacturerAccess OPERATION_STATUS (replicate (nat RESPONSE_MAX_SIZE) 0) 0 b =
       Some (ok, retval', len', b')"
    by (auto simp: isDeviceSealed_def securityMode_def OperationStatus_def
        split: Option.bind_splits if_splits)
  from AltManufacturerAccess_trace [OF this] show ?thesis
    by (simp add: OPERATION_STATUS_def)
qed

lemma writes_append: "writes (xs @ ys) = writes xs @ writes ys"
  by (induction xs rule: writes.induct) simp_all

lemma design_capacity_buffer:
  "replicate 4 (0 :: byte) = [0, 0, 0, 0]"
  "copy_loop [0x2A, 0x46, 0, 0] 2 [0x64, 0x00] 0 2 0 = Some [0x2A, 0x46, 0x64, 0x00]"
  by code_simp+

lemma design_capacity_checksum: "checksum [0x2A, 0x46, 0x64, 0x00] 4 = Some 0x2B"
  by code_simp

section \<open>The claims\<close>

text \<open>
  Claim C1, as amended. For the data-flash write of the two payload bytes
  \<open>[0x64, 0x00]\<close> to address \<open>0x462A\<close>, when the seal check answers
  "not sealed", \<open>dfWriteBytes\<close> returns, and what it did on the bus is, in order:
  the block read of the seal check (\<open>OperationStatus\<close>, subcommand \<open>0x0054\<close>:
  the writes \<open>0x3E [0x54, 0x00]\<close> and \<open>0x3E []\<close> and three read requests), then
  register \<open>0x3E\<close> with \<open>[0x2A, 0x46, 0x64, 0x00]\<close> (address in little endian,
  then the payload), then register \<open>0x60\<close> with \<open>[0x2B, 0x06]\<close>, where \<open>0x2B\<close>
  is the checksum of the first buffer and \<open>0x06\<close> is the payload length 2 plus
  the 4 service bytes, then the 200 ms delay. These are four bus writes, the
  last two of which are the ones of the write path.
\<close>

theorem dfWriteBytes_design_capacity:
  assumes "isDeviceSealed b = Some (False, b1)"
  shows "\<exists>b'. dfWriteBytes 0x462A [0x64, 0x00] 2 b = Some b'
           \<and> trace b' = trace b @ blockReadTrace 0x0054 @
                 [Write 0x3E [0x2A, 0x46, 0x64, 0x00], Write 0x60 [0x2B, 0x06], Delay 200]
           \<and> writes (trace b') = writes (trace b) @
                 [(0x3E, [0x54, 0x00]), (0x3E, []),
                  (0x3E, [0x2A, 0x46, 0x64, 0x00]), (0x60, [0x2B, 0x06])]
           \<and> checksum [0x2A, 0x46, 0x64, 0x00] 4 = Some 0x2B"
proof -
  let ?b' = "delay 200 (emit (Write 0x60 [0x2B, 0x06])
               (emit (Write 0x3E [0x2A, 0x46, 0x64, 0x00]) b1))"
  have gates: "isAddrValid 0x462A" "isAllowedRequestPayloadSize 2"
    by (simp_all add: isAddrValid_def DF_ADDR_MIN_def DF_ADDR_MAX_def
        isAllowedRequestPayloadSize_def isRequestMinAllowed_def PAYLOAD_MAX_SIZE_def
        REQUEST_MAX_SIZE_def)
  have call: "dfWriteBytes 0x462A [0x64, 0x00] 2 b = Some ?b'"
    using gates assms design_capacity_buffer design_capacity_checksum
    by (simp add: dfWriteBytes_def BlockProtocol_defs sendData_def wr_def
        ALT_MANUFACTURER_ACCESS_def MAC_DATA_CHECKSUM_def)
  have tr: "trace ?b' = trace b @ blockReadTrace 0x0054 @
                 [Write 0x3E [0x2A, 0x46, 0x64, 0x00], Write 0x60 [0x2B, 0x06], Delay 200]"
    using isDeviceSealed_trace [OF assms] by (simp add: delay_def emit_def)
  have "writes (trace ?b') = writes (trace b) @
                 [(0x3E, [0x54, 0x00]), (0x3E, []),
                  (0x3E, [0x2A, 0x46, 0x64, 0x00]), (0x60, [0x2B, 0x06])]"
    by (simp only: tr writes_append) (simp add: blockReadTrace_def)
  with call tr design_capacity_checksum show ?thesis
    by blast
qed

text \<open>Witness for C1: the device in FULL ACCESS mode.\<close>

theorem dfWriteBytes_design_capacity_witness:
  "isDeviceSealed unsealedBus = Some (False, \<lparr>trace = blockReadTrace 0x0054, device = []\<rparr>)
   \<and> map_option trace (dfWriteBytes 0x462A [0x64, 0x00] 2 unsealedBus) =
       Some (blockReadTrace 0x0054 @
             [Write 0x3E [0x2A, 0x46, 0x64, 0x00], Write 0x60 [0x2B, 0x06], Delay 200])"
proof -
  have h: "isDeviceSealed unsealedBus =
      Some (False, \<lparr>trace = blockReadTrace 0x0054, device = []\<rparr>)"
    by code_simp
  have t: "trace unsealedBus = []"
    by (simp add: unsealedBus_def)
  from dfWriteBytes_design_capacity [OF h] show ?thesis
    using h t by auto
qed

text \<open>
  Counterexample to C1 as stated ("exactly two bus writes"): with the device
  in FULL ACCESS mode the call performs four bus writes, the first two being
  the seal check's.
\<close>

theorem dfWriteBytes_four_writes_counterexample:
  "map_option (\<lambda>b. writes (trace b)) (dfWriteBytes 0x462A [0x64, 0x00] 2 unsealedBus) =
     Some [(0x3E, [0x54, 0x00]), (0x3E, []), (0x3E, [0x2A, 0x46, 0x64, 0x00]), (0x60, [0x2B, 0x06])]"
  by code_simp

text \<open>
  Claim C2. For every requested payload length \<open>len\<close> with \<open>len <= 0\<close> or
  \<open>len > 32\<close>, \<open>isAllowedRequestPayloadSize(len)\<close> is false and \<open>dfWriteBytes\<close>
  returns with the bus exactly as it was: no write, no read request, no delay.
  This holds for every address, array and bus.
\<close>

theorem dfWriteBytes_rejects_length:
  assumes "len \<le> 0 \<or> 32 < len"
  shows "\<not> isAllowedRequestPayloadSize len \<and> dfWriteBytes addr data len b = Some b"
  using assms
  by (auto simp: dfWriteBytes_def isAllowedRequestPayloadSize_def isRequestMinAllowed_def
      PAYLOAD_MAX_SIZE_def REQUEST_MAX_SIZE_def)

text \<open>Witness for C2: the lengths 0 and 33.\<close>

theorem dfWriteBytes_rejects_length_witness:
  "((0::int) \<le> 0 \<or> 32 < (0::int)) \<and> ((33::int) \<le> 0 \<or> 32 < (33::int))
   \<and> \<not> isAllowedRequestPayloadSize 0 \<and> \<not> isAllowedRequestPayloadSize 33
   \<and> dfWriteBytes 0x462A [0x64, 0x00] 0 unsealedBus = Some unsealedBus
   \<and> dfWriteBytes 0x462A [0x64, 0x00] 33 unsealedBus = Some unsealedBus"
  using dfWriteBytes_rejects_length [of 0 "0x462A" "[0x64, 0x00]" unsealedBus]
    dfWriteBytes_rejects_length [of 33 "0x462A" "[0x64, 0x00]" unsealedBus]
  by simp

text \<open>
  Claim C3, as amended. For every 36-byte frame whose length byte
  \<open>len = frame[35]\<close> is at most 38, \<open>validate(frame)\<close> returns true iff the
  8-bit sum of \<open>frame[34]\<close> and \<open>frame[0 .. len-2)\<close> is non-zero; it returns
  true when the checksum byte \<open>frame[34]\<close> is the bitwise complement of the
  8-bit sum of \<open>frame[0 .. len-2)\<close>; and it returns false for the all-zero
  36-byte frame.
\<close>

theorem validate_iff_sum_nonzero:
  assumes "length frame = 36" and "unat (frame ! 35) \<le> 38"
  shows "validate frame = Some (frame ! 34 + sum_list (take (unat (frame ! 35) - 2) frame) \<noteq> 0)
       \<and> (frame ! 34 = NOT (sum_list (take (unat (frame ! 35) - 2) frame))
            \<longrightarrow> validate frame = Some True)
       \<and> validate (replicate 36 0) = Some False"
proof -
  have zero: "validate (replicate 36 0) = Some False"
    using validate_in_bounds [of "replicate 36 0"] by simp
  have "NOT s + s \<noteq> 0" for s :: byte
    by (simp add: add.commute)
  with validate_in_bounds [OF assms] zero show ?thesis
    by simp
qed

text \<open>Witness for C3: the device-type frame.\<close>

theorem validate_iff_sum_nonzero_witness:
  "length deviceTypeFrame = 36
   \<and> unat (deviceTypeFrame ! 35) \<le> 38
   \<and> deviceTypeFrame ! 34 = NOT (sum_list (take (unat (deviceTypeFrame ! 35) - 2) deviceTypeFrame))
   \<and> validate deviceTypeFrame = Some True"
proof -
  have h1: "length deviceTypeFrame = 36"
    and h2: "unat (deviceTypeFrame ! 35) \<le> 38"
    and h3: "deviceTypeFrame ! 34 =
             NOT (sum_list (take (unat (deviceTypeFrame ! 35) - 2) deviceTypeFrame))"
    by (simp_all add: deviceTypeFrame_def)
  from validate_iff_sum_nonzero [OF h1 h2] h3 have "validate deviceTypeFrame = Some True"
    by blast
  with h1 h2 h3 show ?thesis
    by blast
qed

text \<open>
  Counterexample to C3 as stated ("for every 36-byte frame"): for the 36-byte
  frame of zeros with length byte 255 the loop bound is 253, so the loop reads
  \<open>data[36]\<close> and beyond, past the end of the frame, and the 36 bytes do not
  determine a verdict. The last two conjuncts show what the same loop computes
  when the same 36 bytes are followed in memory by 217 further bytes: true
  when these are all zero, false when the first of them is 1.
\<close>

theorem validate_long_length_counterexample:
  "length longLengthFrame = 36
   \<and> validate longLengthFrame = None
   \<and> validate (longLengthFrame @ replicate 217 0) = Some True
   \<and> validate (longLengthFrame @ 1 # replicate 216 0) = Some False"
  by code_simp

text \<open>
  Claim C4. For a byte array \<open>data\<close> and a length \<open>len\<close> within it,
  \<open>checksum(data, len)\<close> returns the bitwise complement of the 8-bit truncated
  sum of \<open>data[0..len)\<close>, and the (unbounded) sum of these bytes plus the
  checksum has all of its low eight bits set:
  \<open>(sum(data[0..len)) + checksum(data, len)) & 0xFF == 0xFF\<close>.
\<close>

theorem checksum_complement:
  assumes "unat len \<le> length data"
  shows "\<exists>c. checksum data len = Some c
           \<and> c = NOT (of_nat (sum_list (map unat (take (unat len) data))))
           \<and> (sum_list (map unat (take (unat len) data)) + unat c) AND 0xFF = 0xFF"
proof -
  let ?S = "sum_list (map unat (take (unat len) data))"
  have "uint len \<le> int (length data)"
    using assms by (metis uint_nat of_nat_mono)
  moreover have "nat (uint len) = unat len"
    by simp
  ultimately have "sum_loop data (uint len) 0 0 = Some (sum_list (take (unat len) data))"
    using sum_loop_in_bounds [of 0 "uint len" data 0] by simp
  then have c: "checksum data len = Some (NOT (of_nat ?S))"
    by (simp add: checksum_def of_nat_sum_list_unat)
  have "unat (NOT (of_nat ?S :: byte)) = 255 - ?S mod 256"
    by (simp add: unat_NOT_byte unat_of_nat)
  then have "(?S + unat (NOT (of_nat ?S :: byte))) AND 0xFF = 0xFF"
    by (simp only: nat_and_255 complement_sum)
  with c show ?thesis by simp
qed

text \<open>Witness for C4: the example of the source's comment on \<open>checksum\<close>, with result \<open>0x0A\<close>.\<close>

theorem checksum_complement_witness:
  "unat (10 :: byte) \<le> length [0x35, 0x00, 0x23, 0x01, 0x67, 0x45, 0xAB, 0x89, 0xEF, 0xCD :: byte]
   \<and> checksum [0x35, 0x00, 0x23, 0x01, 0x67, 0x45, 0xAB, 0x89, 0xEF, 0xCD] 10 = Some 0x0A"
  using checksum_complement [of 10 "[0x35, 0x00, 0x23, 0x01, 0x67, 0x45, 0xAB, 0x89, 0xEF, 0xCD]"]
  by simp

text \<open>
  Claim C5, as amended. When the block read in
  \<open>AltManufacturerAccess(MACSubcmd, retval, len)\<close> receives a frame that passes
  validation and whose length byte \<open>frame[35]\<close> is at least 4 and at most 38,
  and the caller's buffer \<open>retval\<close> has room for \<open>frame[35] - 4\<close> bytes, the
  function returns true, sets \<open>*len\<close> to \<open>frame[35] - 4\<close> and copies exactly
  the bytes \<open>frame[2 .. 2 + *len)\<close> to the front of \<open>retval\<close>, in order; the
  rest of \<open>retval\<close> keeps its contents. Below 4 the length \<open>frame[35] - 4\<close>
  is negative; above 38 both the validation loop and the copy loop read past
  the end of the 36-byte frame.
\<close>

theorem AltManufacturerAccess_valid_frame:
  assumes rb: "receiveBlock MACSubcmd b = Some (frame, b')"
    and valid: "validate frame = Some True"
    and ge4: "4 \<le> unat (frame ! 35)"
    and le38: "unat (frame ! 35) \<le> 38"
    and room: "unat (frame ! 35) - 4 \<le> length retval"
  shows "\<exists>retval'. AltManufacturerAccess MACSubcmd retval len b =
            Some (True, retval', frame ! 35 - 4, b')
          \<and> length retval' = length retval
          \<and> take (unat (frame ! 35 - 4)) retval' = take (unat (frame ! 35 - 4)) (drop 2 frame)
          \<and> drop (unat (frame ! 35 - 4)) retval' = drop (unat (frame ! 35 - 4)) retval"
proof -
  let ?l = "frame ! 35"
  let ?n = "uint ?l - 4"
  from validate_Some_length [OF valid]
  have len36: "36 \<le> length frame" and fits: "uint ?l - 2 \<le> int (length frame)"
    by simp_all
  have r35: "rd frame LENGTH_INDEX = Some ?l"
    using len36 by (simp add: rd_def LENGTH_INDEX_def)
  have ge4': "4 \<le> uint ?l"
    using ge4 by (metis uint_nat of_nat_mono of_nat_numeral)
  have nat_n: "nat ?n = unat ?l - 4"
    by (simp add: nat_diff_distrib')
  have "4 \<le> ?l"
    using ge4 by (simp add: word_le_nat_alt)
  then have unat_sub4: "unat (?l - 4) = unat ?l - 4"
    by (simp add: unat_sub)
  have room': "0 + ?n \<le> int (length retval)"
    using room ge4' nat_n by linarith
  have src': "2 + ?n \<le> int (length frame)"
    using fits by simp
  from copy_loop_spec [of 0 0 2 ?n retval frame, OF _ _ _ room' src']
  obtain d where d: "copy_loop retval 0 frame 2 ?n 0 = Some d"
    and ld: "length d = length retval"
    and nth: "\<forall>k < length retval. d ! k = (if k < nat ?n then frame ! (k + 2) else retval ! k)"
    by auto
  have call: "AltManufacturerAccess MACSubcmd retval len b = Some (True, d, ?l - 4, b')"
    using rb valid r35 d
    by (simp add: AltManufacturerAccess_def SERVICE_SIZE_def ADDR_SIZE_def CHECKSUM_SIZE_def
        LENGTH_SIZE_def DATA_INDEX_def)
  have tk: "take (unat ?l - 4) d = take (unat ?l - 4) (drop 2 frame)"
  proof (rule nth_equalityI)
    show "length (take (unat ?l - 4) d) = length (take (unat ?l - 4) (drop 2 frame))"
      using ld room src' nat_n ge4' by simp
  next
    fix k assume "k < length (take (unat ?l - 4) d)"
    then have k: "k < unat ?l - 4" and k': "k < length retval"
      using ld by simp_all
    then show "take (unat ?l - 4) d ! k = take (unat ?l - 4) (drop 2 frame) ! k"
      using nth nat_n src' by (simp add: add.commute)
  qed
  have dr: "drop (unat ?l - 4) d = drop (unat ?l - 4) retval"
  proof (rule nth_equalityI)
    show "length (drop (unat ?l - 4) d) = length (drop (unat ?l - 4) retval)"
      using ld by simp
  next
    fix k assume "k < length (drop (unat ?l - 4) d)"
    then have "unat ?l - 4 + k < length retval"
      using ld by simp
    then show "drop (unat ?l - 4) d ! k = drop (unat ?l - 4) retval ! k"
      using nth nat_n ld by simp
  qed
  from call ld tk dr show ?thesis
    by (simp add: unat_sub4)
qed

text \<open>Witness for C5: the device-type scenario; the payload is \<open>[0x10, 0x26]\<close>.\<close>

theorem AltManufacturerAccess_valid_frame_witness:
  "receiveBlock 0x0001 deviceTypeBus =
      Some (deviceTypeFrame, \<lparr>trace = blockReadTrace 0x0001, device = []\<rparr>)
   \<and> validate deviceTypeFrame = Some True
   \<and> 4 \<le> unat (deviceTypeFrame ! 35)
   \<and> unat (deviceTypeFrame ! 35) \<le> 38
   \<and> unat (deviceTypeFrame ! 35) - 4 \<le> length [0xAA, 0xBB, 0xCC :: byte]
   \<and> AltManufacturerAccess 0x0001 [0xAA, 0xBB, 0xCC] 0 deviceTypeBus =
        Some (True, [0x10, 0x26, 0xCC], 2, \<lparr>trace = blockReadTrace 0x0001, device = []\<rparr>)"
proof -
  have h1: "receiveBlock 0x0001 deviceTypeBus =
      Some (deviceTypeFrame, \<lparr>trace = blockReadTrace 0x0001, device = []\<rparr>)"
    by code_simp
  have h2: "validate deviceTypeFrame = Some True"
    by code_simp
  have h3: "4 \<le> unat (deviceTypeFrame ! 35)"
    by (simp add: deviceTypeFrame_def)
  have h4: "unat (deviceTypeFrame ! 35) - 4 \<le> length [0xAA, 0xBB, 0xCC :: byte]"
    by (simp add: deviceTypeFrame_def)
  have h5: "unat (deviceTypeFrame ! 35) \<le> 38"
    by (simp add: deviceTypeFrame_def)
  have l: "deviceTypeFrame ! 35 - 4 = 2"
    by (simp add: deviceTypeFrame_def)
  from AltManufacturerAccess_valid_frame [OF h1 h2 h3 h5 h4, of 0]
  obtain r where call: "AltManufacturerAccess 0x0001 [0xAA, 0xBB, 0xCC] 0 deviceTypeBus =
        Some (True, r, 2, \<lparr>trace = blockReadTrace 0x0001, device = []\<rparr>)"
    and lr: "length r = 3"
    and tk: "take 2 r = take 2 (drop 2 deviceTypeFrame)"
    and dr: "drop 2 r = [0xCC]"
    by (auto simp: l)
  have "r = take 2 r @ drop 2 r"
    by simp
  also have "\<dots> = [0x10, 0x26, 0xCC]"
    by (simp only: tk dr) (simp add: deviceTypeFrame_def)
  finally show ?thesis
    using call h1 h2 h3 h4 h5 by simp
qed

text \<open>
  Counterexample to C5 as stated: the frame with length byte 3 passes
  validation (\<open>frame[34] + frame[0] = 2\<close>), the function returns true and sets
  \<open>*len\<close> to 255, and not one byte of the frame is copied to \<open>retval\<close>.
  The last conjunct is the other end of the range: with a length byte of 39
  the validation loop reads \<open>data[36]\<close>, and the copy loop would read
  \<open>buf[36]\<close>, both past the end of the 36-byte frame, so the call has no
  defined result.
\<close>

theorem AltManufacturerAccess_short_length_counterexample:
  "receiveBlock 0x0001 shortLengthBus =
      Some (shortLengthFrame, \<lparr>trace = blockReadTrace 0x0001, device = []\<rparr>)
   \<and> validate shortLengthFrame = Some True
   \<and> AltManufacturerAccess 0x0001 [0xAA, 0xBB, 0xCC] 0 shortLengthBus =
        Some (True, [0xAA, 0xBB, 0xCC], 0xFF, \<lparr>trace = blockReadTrace 0x0001, device = []\<rparr>)
   \<and> AltManufacturerAccess 0x0001 (replicate 36 0) 0 overlongBus = None"
  by code_simp

text \<open>
  Claim C6. When the received frame fails validation,
  \<open>AltManufacturerAccess(MACSubcmd, retval, len)\<close> returns false and both the
  caller's buffer \<open>retval\<close> and the output length \<open>*len\<close> are exactly what they
  were before the call.
\<close>

theorem AltManufacturerAccess_invalid_frame:
  assumes "receiveBlock MACSubcmd b = Some (frame, b')"
    and "validate frame = Some False"
  shows "AltManufacturerAccess MACSubcmd retval len b = Some (False, retval, len, b')"
  using assms by (simp add: AltManufacturerAccess_def)

text \<open>Witness for C6: a device that does not answer, so that the frame is all zero.\<close>

theorem AltManufacturerAccess_invalid_frame_witness:
  "receiveBlock 0x0001 \<lparr>trace = [], device = []\<rparr> =
      Some (replicate 36 0, \<lparr>trace = blockReadTrace 0x0001, device = []\<rparr>)
   \<and> validate (replicate 36 0) = Some False
   \<and> AltManufacturerAccess 0x0001 [0xAA, 0xBB] 7 \<lparr>trace = [], device = []\<rparr> =
      Some (False, [0xAA, 0xBB], 7, \<lparr>trace = blockReadTrace 0x0001, device = []\<rparr>)"
proof -
  have h1: "receiveBlock 0x0001 \<lparr>trace = [], device = []\<rparr> =
      Some (replicate 36 0, \<lparr>trace = blockReadTrace 0x0001, device = []\<rparr>)"
    by code_simp
  have h2: "validate (replicate 36 0) = Some False"
    by code_simp
  show ?thesis
    using AltManufacturerAccess_invalid_frame [OF h1 h2, of "[0xAA, 0xBB]" 7] h1 h2
    by simp
qed

text \<open>
  Claim C7. For every buffer and all indices \<open>0 <= from < till\<close> within it,
  \<open>composeValue(buf, from, till)\<close> returns the little-endian value of the bytes
  \<open>buf[from .. till]\<close> (\<open>buf[from]\<close> least significant) as an unsigned 32-bit
  value, that is, reduced modulo \<open>2^32\<close>; for a range of at most four bytes
  the value is exact. In particular
  \<open>composeValue([0x11, 0x22, 0x33, 0x44], 0, 3) == 0x44332211\<close>.
\<close>

theorem composeValue_little_endian:
  assumes "0 \<le> from'" and "from' < till" and "till < int (length buf)"
  shows "(\<exists>v. composeValue buf from' till = Some v
            \<and> unat v = le_value (take (nat (till - from' + 1)) (drop (nat from') buf)) mod 2 ^ 32
            \<and> (till - from' \<le> 3 \<longrightarrow>
                 unat v = le_value (take (nat (till - from' + 1)) (drop (nat from') buf))))
       \<and> composeValue [0x11, 0x22, 0x33, 0x44] 0 3 = Some 0x44332211"
proof -
  let ?bs = "take (nat (till - from' + 1)) (drop (nat from') buf)"
  have "composeValue buf from' till = Some (of_nat (le_value ?bs))"
    using assms composeValue_loop_spec [of from' till buf 0]
    by (simp add: composeValue_def)
  moreover have "unat (of_nat (le_value ?bs) :: u32) = le_value ?bs mod 2 ^ 32"
    by (simp add: unat_of_nat)
  moreover have "le_value ?bs mod 2 ^ 32 = le_value ?bs" if "till - from' \<le> 3"
  proof -
    have "length ?bs \<le> 4"
      using that assms by simp
    then have "(256::nat) ^ length ?bs \<le> 256 ^ 4"
      by (intro power_increasing) simp_all
    with le_value_bound [of ?bs] have "le_value ?bs < 2 ^ 32"
      by simp
    then show ?thesis by simp
  qed
  moreover have "composeValue [0x11, 0x22, 0x33, 0x44] 0 3 = Some 0x44332211"
    by code_simp
  ultimately show ?thesis
    by simp
qed

text \<open>Witness for C7: the two middle bytes of a four-byte buffer.\<close>

theorem composeValue_little_endian_witness:
  "(0::int) \<le> 1 \<and> (1::int) < 2 \<and> (2::int) < int (length [0xAA, 0x34, 0x12, 0xBB :: byte])
   \<and> composeValue [0xAA, 0x34, 0x12, 0xBB] 1 2 = Some 0x1234
   \<and> composeValue [0x11, 0x22, 0x33, 0x44] 0 3 = Some 0x44332211"
proof -
  have v: "composeValue [0xAA, 0x34, 0x12, 0xBB] 1 2 = Some 0x1234"
    by code_simp
  show ?thesis
    using composeValue_little_endian [of 1 2 "[0xAA, 0x34, 0x12, 0xBB]"] v
    by simp
qed

text \<open>
  Claim C8. For every 16-bit value \<open>v\<close>, every buffer and every index
  \<open>lsbIndex >= 0\<close> with \<open>lsbIndex + 1\<close> inside the buffer: after
  \<open>buf[lsbIndex] = v & 0xFF\<close> and \<open>buf[lsbIndex + 1] = v >> 8\<close>,
  \<open>composeWord(buf, lsbIndex, true)\<close> returns \<open>v\<close> and prints nothing.
\<close>

theorem composeWord_roundtrip:
  assumes "0 \<le> lsbIndex" and "lsbIndex + 1 < int (length buf)"
  shows "composeWord
           (buf[nat lsbIndex := ucast (v AND 0xFF), nat (lsbIndex + 1) := ucast (drop_bit 8 v)])
           lsbIndex True = Some ([], v)"
proof -
  let ?buf = "buf[nat lsbIndex := ucast (v AND 0xFF), nat (lsbIndex + 1) := ucast (drop_bit 8 v)]"
  have ne: "nat lsbIndex \<noteq> nat (lsbIndex + 1)"
    using assms(1) by simp
  have hi: "rd ?buf (lsbIndex + 1) = Some (ucast (drop_bit 8 v))"
    using assms by (simp add: rd_def)
  have lo: "rd ?buf lsbIndex = Some (ucast (v AND 0xFF))"
    using assms ne by (simp add: rd_def)
  show ?thesis
    using assms(1) hi lo by (simp add: composeWord_def join_bytes)
qed

text \<open>Witness for C8: the word \<open>0x2610\<close> stored at index 1.\<close>

theorem composeWord_roundtrip_witness:
  "(0::int) \<le> 1 \<and> (1::int) + 1 < int (length [0xAA, 0xBB, 0xCC, 0xDD :: byte])
   \<and> [0xAA, 0xBB, 0xCC, 0xDD :: byte][nat 1 := ucast ((0x2610 :: word16) AND 0xFF),
          nat (1 + 1) := ucast (drop_bit 8 (0x2610 :: word16))] = [0xAA, 0x10, 0x26, 0xDD]
   \<and> composeWord [0xAA, 0x10, 0x26, 0xDD] 1 True = Some ([], 0x2610)"
proof -
  have e: "[0xAA, 0xBB, 0xCC, 0xDD :: byte][nat 1 := ucast ((0x2610 :: word16) AND 0xFF),
          nat (1 + 1) := ucast (drop_bit 8 (0x2610 :: word16))] = [0xAA, 0x10, 0x26, 0xDD]"
    by code_simp
  show ?thesis
    using composeWord_roundtrip [of 1 "[0xAA, 0xBB, 0xCC, 0xDD]" "0x2610"] e
    by simp
qed

text \<open>
  Claim C9, as amended. For every buffer (the empty one included, so the
  buffer is not read), \<open>composeWord(buf, lsbIndex, littleEndian)\<close> prints its
  error line and returns 0 exactly when the adjacent index
  \<open>lsbIndex + (littleEndian ? 1 : -1)\<close> is negative; for \<open>lsbIndex >= 0\<close> that
  is exactly when \<open>littleEndian = false\<close> and \<open>lsbIndex = 0\<close>.
\<close>

theorem composeWord_sentinel:
  "(composeWord buf lsbIndex littleEndian =
      Some ([''~ Error: Incorrect pair of index and endian.''], 0))
   = (lsbIndex + (if littleEndian then 1 else - 1) < 0)
   \<and> (0 \<le> lsbIndex \<longrightarrow>
        (lsbIndex + (if littleEndian then 1 else - 1) < 0) = (\<not> littleEndian \<and> lsbIndex = 0))"
  by (auto simp: composeWord_def Let_def split: Option.bind_splits)

text \<open>Witness for C9: index 0 in big endian fails; index 1 in big endian and index 0 in little endian do not.\<close>

theorem composeWord_sentinel_witness:
  "(0::int) \<le> 0
   \<and> composeWord [] 0 False = Some ([''~ Error: Incorrect pair of index and endian.''], 0)
   \<and> composeWord [0x11, 0x22] 1 False = Some ([], 0x1122)
   \<and> composeWord [0x11, 0x22] 0 True = Some ([], 0x2211)"
proof -
  have a: "composeWord [0x11, 0x22] 1 False = Some ([], 0x1122)"
    and b: "composeWord [0x11, 0x22] 0 True = Some ([], 0x2211)"
    by code_simp+
  show ?thesis
    using composeWord_sentinel [of "[]" 0 False] a b by simp
qed

text \<open>
  Counterexample to C9 as stated ("i.e. when littleEndian = false and
  lsbIndex = 0"): with \<open>lsbIndex = -2\<close> and \<open>littleEndian = true\<close> the adjacent
  index is \<open>-1\<close>, and the error branch is taken.
\<close>

theorem composeWord_negative_index_counterexample:
  "composeWord [0x11, 0x22] (- 2) True =
     Some ([''~ Error: Incorrect pair of index and endian.''], 0)"
  by code_simp

text \<open>
  Claim C10. \<open>checksum(data, 0)\<close> returns \<open>0xFF\<close>, the complement of the empty
  sum, whatever the array holds (the array is not read).
\<close>

theorem checksum_empty: "checksum data 0 = Some 0xFF"
  by (simp add: checksum_def sum_loop_done)

end
